theory Spec2Isabelle
  imports Main "HOL-Library.AList" "HOL-Library.Multiset" "HOL-Library.Sublist"
begin

section \<open>Rule records and the rule queries of main.py\<close>

text \<open>
  A row of the AdminRule or UserRule table. The two models share one shape; the fields
  listed are the columns that main.py reads or writes by name and that the tree
  organizer uses. The remaining columns (url_path, icon, extend, timestamps, ...) are
  metadata that nothing below reads, and are left out.
\<close>

record rule =
  rid :: int
  pid :: int
  rtype :: string
  status :: string
  weigh :: int
  name :: string
  addon :: int

text \<open>
  The database snapshot a request sees: the rows of the two rule tables, in storage
  order.
\<close>

record database =
  admin_rule_table :: "rule list"
  user_rule_table :: "rule list"

text \<open>
  \<^verbatim>\<open>Model.query.filter(...).order_by(Model.id.asc()).all()\<close>: the rows that satisfy the
  predicate, ordered by ascending id. \<^verbatim>\<open>filter_by(k=v, ...)\<close> and \<^verbatim>\<open>filter(Model.k == v, ...)\<close>
  state the same conjunction of equalities. \<^verbatim>\<open>get_admin_rules_all\<close> returns the query
  without \<^verbatim>\<open>.all()\<close>; read by the template, it yields the same rows.
\<close>

definition query_all :: "(rule \<Rightarrow> bool) \<Rightarrow> rule list \<Rightarrow> rule list" where
  "query_all p table = sort_key rid (filter p table)"

definition get_admin_rules :: "database \<Rightarrow> rule list" where
  "get_admin_rules db =
     query_all (\<lambda>r. rtype r = ''menu'' \<and> status r = ''normal'') (admin_rule_table db)"

definition get_admin_rules_all :: "database \<Rightarrow> rule list" where
  "get_admin_rules_all db =
     query_all (\<lambda>r. status r = ''normal'') (admin_rule_table db)"

definition get_user_rules :: "database \<Rightarrow> rule list" where
  "get_user_rules db =
     query_all (\<lambda>r. pid r = 0 \<and> rtype r = ''menu'' \<and> status r = ''normal'')
       (user_rule_table db)"

definition get_user_rules_query :: "database \<Rightarrow> rule list" where
  "get_user_rules_query db =
     query_all (\<lambda>r. pid r = 0 \<and> rtype r = ''menu'' \<and> status r = ''normal'')
       (user_rule_table db)"

definition get_user_rules_all :: "database \<Rightarrow> rule list" where
  "get_user_rules_all db =
     query_all (\<lambda>r. pid r = 0 \<and> rtype r = ''menu'' \<and> status r = ''normal'')
       (user_rule_table db)"

text \<open>
  An entry of the \<^verbatim>\<open>admin_menu\<close> list of a plugin's plugin.json, and the AdminRule that
  \<^verbatim>\<open>scan_plugins_folder\<close> builds from it: every field is copied from the manifest, except
  \<^verbatim>\<open>addon\<close>, which is set to 1. The record holds the entries that have every required
  key; the rule built from an entry is appended to \<^verbatim>\<open>plugin_admin_rules\<close>, the list that
  the application keeps for all requests. The function is called for a plugin only when
  plugins_status.json marks the plugin as enabled.
\<close>

record menu_item =
  item_id :: int
  item_pid :: int
  item_type :: string
  item_status :: string
  item_weigh :: int
  item_name :: string

definition admin_rule_of_item :: "menu_item \<Rightarrow> rule" where
  "admin_rule_of_item item =
     \<lparr>rid = item_id item, pid = item_pid item, rtype = item_type item,
      status = item_status item, weigh = item_weigh item, name = item_name item,
      addon = 1\<rparr>"

definition scan_plugins_folder :: "rule list \<Rightarrow> menu_item list \<Rightarrow> rule list" where
  "scan_plugins_folder plugin_admin_rules admin_menu =
     plugin_admin_rules @ map admin_rule_of_item admin_menu"

text \<open>
  The two sequences that \<^verbatim>\<open>inject_global_variables\<close> hands to the organizers:
  \<^verbatim>\<open>organize_admin_rules\<close> receives the result of \<^verbatim>\<open>get_admin_rules\<close> extended by the
  plugins' rules, \<^verbatim>\<open>organize_user_rules\<close> the result of \<^verbatim>\<open>get_user_rules\<close> (the
  extension by the plugins' user rules is commented out in the source).
\<close>

definition admin_organizer_input :: "database \<Rightarrow> rule list \<Rightarrow> rule list" where
  "admin_organizer_input db plugin_admin_rules = get_admin_rules db @ plugin_admin_rules"

definition user_organizer_input :: "database \<Rightarrow> rule list \<Rightarrow> rule list" where
  "user_organizer_input db plugin_user_rules = get_user_rules db"

section \<open>The rule-tree organizer\<close>

text \<open>
  Modelled from the spec: \<^verbatim>\<open>organize_admin_rules\<close> and \<^verbatim>\<open>organize_user_rules\<close> are imported
  by main.py from \<^verbatim>\<open>app.core.process_rules\<close>, a module that is not among the sources. The
  definitions of this section follow the algorithm of the specification's section 4.1,
  step by step; one organizer serves both rule domains, which share the rule shape.
\<close>

text \<open>A \<^verbatim>\<open>RuleNode\<close> wraps a rule together with the sequence of its child nodes.\<close>

datatype rule_node = RuleNode (node_rule: rule) (children: "rule_node list")

text \<open>
  Modelled from the spec: step 1, the index from id to rule. A Python dict built in input
  order keeps the last rule of an id; \<open>map_of\<close> keeps the first of a list, hence the
  reversal.
\<close>

definition rule_index :: "rule list \<Rightarrow> int \<rightharpoonup> rule" where
  "rule_index rules = map_of (rev (map (\<lambda>r. (rid r, r)) rules))"

text \<open>
  Modelled from the spec: step 2, the mapping from a parent id to its group of rules, in
  input order, each group then sorted by ascending \<^verbatim>\<open>weigh\<close> with a stable sort.
\<close>

definition children_by_parent :: "rule list \<Rightarrow> int \<Rightarrow> rule list" where
  "children_by_parent rules p = sort_key weigh (filter (\<lambda>r. pid r = p) rules)"

text \<open>
  Modelled from the spec: steps 3 and 5, the recursive assembly of the node of rule \<open>r\<close>.
  \<open>path\<close> holds the ids visited on the way from the root to \<open>r\<close>; a rule whose id is on
  the path is skipped, so a result is a list of zero or one node. The children of a node
  are taken from the group of its id.
\<close>

function assemble :: "rule list \<Rightarrow> int list \<Rightarrow> rule \<Rightarrow> rule_node list" where
  "assemble rules path r =
     (if rid r \<in> set path then []
      else [RuleNode r
              (concat (map (assemble rules (rid r # path))
                 (children_by_parent rules (rid r))))])"
  by pat_completeness auto
termination
proof (relation "measure (\<lambda>(rules, path, r). card ((rid ` set rules \<union> {rid r}) - set path))")
  show "wf (measure (\<lambda>(rules, path, r). card ((rid ` set rules \<union> {rid r}) - set path)))"
    by simp
next
  fix rules :: "rule list" and path :: "int list" and r c :: rule
  assume fresh: "rid r \<notin> set path" and c: "c \<in> set (children_by_parent rules (rid r))"
  from c have "rid c \<in> rid ` set rules"
    by (auto simp: children_by_parent_def)
  then have eq: "(rid ` set rules \<union> {rid c}) - set (rid r # path)
      = (rid ` set rules - set path) - {rid r}"
    by auto
  have "(rid ` set rules - set path) - {rid r} \<subset> (rid ` set rules \<union> {rid r}) - set path"
    using fresh by auto
  then have "card ((rid ` set rules - set path) - {rid r})
      < card ((rid ` set rules \<union> {rid r}) - set path)"
    by (intro psubset_card_mono) auto
  with eq show "((rules, rid r # path, c), (rules, path, r))
      \<in> measure (\<lambda>(rules, path, r). card ((rid ` set rules \<union> {rid r}) - set path))"
    by simp
qed

declare assemble.simps [simp del]

text \<open>
  Modelled from the spec: steps 3 and 4, the result is the sequence of the trees of the
  entries whose \<^verbatim>\<open>pid\<close> is 0, taken from the group of parent id 0. A rule that no tree
  reaches is in no tree: it is dropped without an error.
\<close>

definition organize :: "rule list \<Rightarrow> rule_node list" where
  "organize rules = concat (map (assemble rules []) (children_by_parent rules 0))"

text \<open>
  Modelled from the spec: the same recursion with an explicit bound on the depth of the
  calls instead of a termination argument: \<open>None\<close> when the bound is used up.
\<close>

fun assemble_fuel :: "nat \<Rightarrow> rule list \<Rightarrow> int list \<Rightarrow> rule \<Rightarrow> rule_node list option" where
  "assemble_fuel 0 rules path r = None"
| "assemble_fuel (Suc n) rules path r =
     (if rid r \<in> set path then Some []
      else (case those (map (assemble_fuel n rules (rid r # path))
                          (children_by_parent rules (rid r))) of
              None \<Rightarrow> None
            | Some nss \<Rightarrow> Some [RuleNode r (concat nss)]))"

definition organize_fuel :: "nat \<Rightarrow> rule list \<Rightarrow> rule_node list option" where
  "organize_fuel n rules =
     map_option concat (those (map (assemble_fuel n rules []) (children_by_parent rules 0)))"

subsection \<open>Reading a tree\<close>

text \<open>The rules of a tree in preorder, and those of a sequence of trees.\<close>

fun tree_rules :: "rule_node \<Rightarrow> rule list" where
  "tree_rules (RuleNode r cs) = r # concat (map tree_rules cs)"

definition forest_rules :: "rule_node list \<Rightarrow> rule list" where
  "forest_rules ns = concat (map tree_rules ns)"

text \<open>Every node of a tree, the root first, and every node of a sequence of trees.\<close>

fun subtrees :: "rule_node \<Rightarrow> rule_node list" where
  "subtrees (RuleNode r cs) = RuleNode r cs # concat (map subtrees cs)"

definition forest_nodes :: "rule_node list \<Rightarrow> rule_node list" where
  "forest_nodes ns = concat (map subtrees ns)"

text \<open>The number of nodes on the longest path from a node down to a leaf.\<close>

fun height :: "rule_node \<Rightarrow> nat" where
  "height (RuleNode r cs) = Suc (fold max (map height cs) 0)"

subsection \<open>Orphans, descendants and anchored rules\<close>

text \<open>
  An orphan refers to a parent that is not in the input: its \<^verbatim>\<open>pid\<close> is not 0 and is the id
  of no rule.
\<close>

definition is_orphan :: "rule list \<Rightarrow> rule \<Rightarrow> bool" where
  "is_orphan rules r = (pid r \<noteq> 0 \<and> rule_index rules (pid r) = None)"

text \<open>
  \<open>descends rules d a\<close>: the chain of parent references that starts at \<open>d\<close> passes
  through \<open>a\<close>. A \<^verbatim>\<open>pid\<close> of 0 marks a root and is no reference. A rule that descends from
  itself lies on a cycle.
\<close>

inductive descends :: "rule list \<Rightarrow> rule \<Rightarrow> rule \<Rightarrow> bool" for rules where
  descends_child: "d \<in> set rules \<Longrightarrow> a \<in> set rules \<Longrightarrow> pid d \<noteq> 0 \<Longrightarrow> pid d = rid a
     \<Longrightarrow> descends rules d a"
| descends_step: "d \<in> set rules \<Longrightarrow> m \<in> set rules \<Longrightarrow> pid d \<noteq> 0 \<Longrightarrow> pid d = rid m
     \<Longrightarrow> descends rules m a \<Longrightarrow> descends rules d a"

text \<open>
  \<open>anchored rules r\<close>: the chain of parent references of \<open>r\<close> ends in a root.
\<close>

inductive anchored :: "rule list \<Rightarrow> rule \<Rightarrow> bool" for rules where
  anchored_root: "r \<in> set rules \<Longrightarrow> pid r = 0 \<Longrightarrow> anchored rules r"
| anchored_child: "r \<in> set rules \<Longrightarrow> p \<in> set rules \<Longrightarrow> rid p = pid r \<Longrightarrow> anchored rules p
     \<Longrightarrow> anchored rules r"


text \<open>
  The rules that the specification excludes from the result: an orphan, a rule on a cycle,
  and a rule whose chain of parent references passes through an orphan or a rule on a
  cycle.
\<close>

definition excluded :: "rule list \<Rightarrow> rule \<Rightarrow> bool" where
  "excluded rules r =
     (is_orphan rules r \<or> descends rules r r \<or>
      (\<exists>a \<in> set rules. descends rules r a \<and> (is_orphan rules a \<or> descends rules a a)))"

code_pred descends .

code_pred anchored .

section \<open>Logging of POST requests\<close>

text \<open>
  The value that \<^verbatim>\<open>request.get_json\<close> parses. A Python dict keeps its keys in insertion
  order, so an object is an association list. Numbers are integers here: nothing below
  looks at a number but for its truth value.
\<close>

datatype json =
  JNull | JBool bool | JNum int | JStr string | JArr "json list" | JObj "(string \<times> json) list"

text \<open>
  The exceptions that the body of \<^verbatim>\<open>log_request_data\<close> can raise: a value without a
  \<^verbatim>\<open>copy\<close> method, an item assignment with a string index on a list, and a failing
  \<^verbatim>\<open>db.session.commit\<close>.
\<close>

datatype py_error = AttributeError | TypeError | CommitError

record user =
  user_id :: int
  user_name :: string

record request =
  req_method :: string
  req_url :: string
  req_endpoint :: string
  req_user_agent :: string
  req_remote_addr :: string

text \<open>A row of the AdminLog table, with the fields that \<^verbatim>\<open>log_request_data\<close> fills.\<close>

record admin_log =
  al_admin_id :: int
  al_username :: string
  al_url :: string
  al_title :: string
  al_content :: string
  al_ip :: string
  al_useragent :: string
  al_createtime :: int

text \<open>
  What a call reads and does not change: the request, \<^verbatim>\<open>g.user\<close>, the clock, and whether
  the database accepts the commit.
\<close>

record environment =
  env_request :: request
  g_user :: "user option"
  utcnow :: int
  commit_ok :: bool

text \<open>
  What a call can change: the parsed JSON that the request caches (\<open>None\<close> when
  \<^verbatim>\<open>get_json(silent=True)\<close> returns \<^verbatim>\<open>None\<close>), the committed rows of AdminLog, the
  errors handed to \<^verbatim>\<open>logger.error\<close>, and the lines printed.
\<close>

record world =
  cached_json :: "json option"
  admin_logs :: "admin_log list"
  error_log :: "py_error list"
  stdout :: "string list"

text \<open>Python's truth value of a parsed JSON value.\<close>

fun truthy :: "json \<Rightarrow> bool" where
  "truthy JNull = False"
| "truthy (JBool b) = b"
| "truthy (JNum n) = (n \<noteq> 0)"
| "truthy (JStr s) = (s \<noteq> [])"
| "truthy (JArr xs) = (xs \<noteq> [])"
| "truthy (JObj kvs) = (kvs \<noteq> [])"

text \<open>\<^verbatim>\<open>request.get_json(silent=True) or {}\<close>\<close>

definition get_json_or_empty :: "json option \<Rightarrow> json" where
  "get_json_or_empty body =
     (case body of None \<Rightarrow> JObj [] | Some j \<Rightarrow> if truthy j then j else JObj [])"

text \<open>\<^verbatim>\<open>request_json.copy()\<close>: dicts and lists have the method, the other values do not.\<close>

fun copy :: "json \<Rightarrow> py_error + json" where
  "copy (JObj kvs) = Inr (JObj kvs)"
| "copy (JArr xs) = Inr (JArr xs)"
| "copy j = Inl AttributeError"

text \<open>\<^verbatim>\<open>"password" in log_json\<close>: a key of a dict, an element of a list.\<close>

fun contains_password :: "json \<Rightarrow> bool" where
  "contains_password (JObj kvs) = (''password'' \<in> fst ` set kvs)"
| "contains_password (JArr xs) = (JStr ''password'' \<in> set xs)"
| "contains_password j = False"

text \<open>\<^verbatim>\<open>log_json["password"] = ""\<close>: the value of the key is replaced where the key stands.\<close>

fun set_password_empty :: "json \<Rightarrow> py_error + json" where
  "set_password_empty (JObj kvs) = Inr (JObj (AList.update ''password'' (JStr []) kvs))"
| "set_password_empty j = Inl TypeError"

text \<open>The copy of the request's JSON with the password blanked: the value that is serialized.\<close>

definition redact :: "json \<Rightarrow> py_error + json" where
  "redact request_json =
     (case copy request_json of
        Inl e \<Rightarrow> Inl e
      | Inr log_json \<Rightarrow>
          if contains_password log_json then set_password_empty log_json else Inr log_json)"

definition new_admin_log :: "environment \<Rightarrow> user \<Rightarrow> string \<Rightarrow> admin_log" where
  "new_admin_log env u content_str =
     \<lparr>al_admin_id = user_id u, al_username = user_name u,
      al_url = req_url (env_request env), al_title = req_endpoint (env_request env),
      al_content = content_str, al_ip = req_remote_addr (env_request env),
      al_useragent = req_user_agent (env_request env), al_createtime = utcnow env\<rparr>"

text \<open>
  The body of the \<^verbatim>\<open>try\<close> block. \<^verbatim>\<open>json.dumps\<close> is the parameter \<open>dumps\<close>. The assignment
  changes the copy only, so the cached JSON of the request stays as it is. A row is
  added, committed and printed only when \<^verbatim>\<open>g.user\<close> is set.
\<close>

definition log_request_body ::
    "(json \<Rightarrow> string) \<Rightarrow> environment \<Rightarrow> world \<Rightarrow> py_error + world" where
  "log_request_body dumps env w =
     (case redact (get_json_or_empty (cached_json w)) of
        Inl e \<Rightarrow> Inl e
      | Inr log_json \<Rightarrow>
          (let content_str = dumps log_json in
           case g_user env of
             None \<Rightarrow> Inr w
           | Some u \<Rightarrow>
               if commit_ok env
               then Inr (w\<lparr>admin_logs := admin_logs w @ [new_admin_log env u content_str],
                           stdout := stdout w @ [content_str]\<rparr>)
               else Inl CommitError))"

text \<open>
  \<^verbatim>\<open>log_request_data\<close>: the \<^verbatim>\<open>except Exception\<close> clause hands the error to the logger. The
  result is \<open>Inl\<close> when an exception leaves the function.
\<close>

definition log_request_data ::
    "(json \<Rightarrow> string) \<Rightarrow> environment \<Rightarrow> world \<Rightarrow> py_error + world" where
  "log_request_data dumps env w =
     (case log_request_body dumps env w of
        Inl e \<Rightarrow> Inr (w\<lparr>error_log := error_log w @ [e]\<rparr>)
      | Inr w' \<Rightarrow> Inr w')"

text \<open>\<^verbatim>\<open>before_request\<close>, after it has set \<^verbatim>\<open>g.user\<close> and \<^verbatim>\<open>g.admin\<close>.\<close>

definition before_request ::
    "(json \<Rightarrow> string) \<Rightarrow> environment \<Rightarrow> world \<Rightarrow> py_error + world" where
  "before_request dumps env w =
     (if req_method (env_request env) = ''POST'' then log_request_data dumps env w else Inr w)"

section \<open>Sample data\<close>

text \<open>Concrete rules, requests and states for the examples below.\<close>

definition mk_rule :: "int \<Rightarrow> int \<Rightarrow> int \<Rightarrow> rule" where
  "mk_rule i p w =
     \<lparr>rid = i, pid = p, rtype = ''menu'', status = ''normal'', weigh = w, name = [],
      addon = 0\<rparr>"

definition sample_item :: menu_item where
  "sample_item =
     \<lparr>item_id = 100, item_pid = 0, item_type = ''menu'', item_status = ''hidden'',
      item_weigh = 0, item_name = ''plugin''\<rparr>"

definition sample_request :: request where
  "sample_request =
     \<lparr>req_method = ''POST'', req_url = ''/login'', req_endpoint = ''login'',
      req_user_agent = ''agent'', req_remote_addr = ''127.0.0.1''\<rparr>"

definition sample_env :: environment where
  "sample_env =
     \<lparr>env_request = sample_request, g_user = Some \<lparr>user_id = 1, user_name = ''alice''\<rparr>,
      utcnow = 0, commit_ok = True\<rparr>"

definition sample_world :: "json \<Rightarrow> world" where
  "sample_world body = \<lparr>cached_json = Some body, admin_logs = [], error_log = [], stdout = []\<rparr>"

text \<open>
  A stand-in for the serializer: the entries of an object as \<open>key=value;\<close>, with the
  value written out where it is a string.
\<close>

definition sample_dumps :: "json \<Rightarrow> string" where
  "sample_dumps j =
     (case j of
        JObj kvs \<Rightarrow>
          concat (map (\<lambda>(k, v). k @ ''='' @ (case v of JStr t \<Rightarrow> t | _ \<Rightarrow> ''?'') @ '';'') kvs)
      | _ \<Rightarrow> [])"

section \<open>Facts about the queries\<close>

lemma set_query_all: "set (query_all p table) = {r \<in> set table. p r}"
  by (simp add: query_all_def)

lemma sorted_query_all: "sorted (map rid (query_all p table))"
  by (simp add: query_all_def)

lemma mset_query_all: "mset (query_all p table) = filter_mset p (mset table)"
  by (simp add: query_all_def)

section \<open>Facts about the organizer\<close>

lemma rule_index_None: "rule_index rules i = None \<longleftrightarrow> i \<notin> rid ` set rules"
  by (simp add: rule_index_def map_of_eq_None_iff image_image)

lemma set_children_by_parent:
  "set (children_by_parent rules p) = {r \<in> set rules. pid r = p}"
  by (simp add: children_by_parent_def)

lemma forest_rules_simps [simp]:
  "forest_rules [] = []"
  "forest_rules (n # ns) = tree_rules n @ forest_rules ns"
  "forest_rules (ms @ ns) = forest_rules ms @ forest_rules ns"
  by (simp_all add: forest_rules_def)

lemma tree_rules_forest: "tree_rules (RuleNode r cs) = r # forest_rules cs"
  by (simp add: forest_rules_def)

lemma forest_rules_concat:
  "forest_rules (concat (map f xs)) = concat (map (\<lambda>x. forest_rules (f x)) xs)"
  by (induction xs) simp_all

lemma forest_rules_assemble:
  "forest_rules (assemble rules path r) =
     (if rid r \<in> set path then []
      else r # concat (map (\<lambda>c. forest_rules (assemble rules (rid r # path) c))
                  (children_by_parent rules (rid r))))"
  by (subst assemble.simps)
    (simp add: tree_rules_forest forest_rules_concat del: tree_rules.simps)

lemma forest_rules_organize:
  "forest_rules (organize rules) =
     concat (map (\<lambda>c. forest_rules (assemble rules [] c)) (children_by_parent rules 0))"
  by (simp add: organize_def forest_rules_concat)

lemma assemble_anchored:
  "anchored rules r \<Longrightarrow> x \<in> set (forest_rules (assemble rules path r)) \<Longrightarrow> anchored rules x"
proof (induction rules path r arbitrary: x rule: assemble.induct)
  case (1 rules path r)
  have fresh: "rid r \<notin> set path"
  proof
    assume "rid r \<in> set path"
    then have "forest_rules (assemble rules path r) = []"
      by (subst forest_rules_assemble) simp
    with "1.prems"(2) show False by simp
  qed
  then have "forest_rules (assemble rules path r) =
      r # concat (map (\<lambda>c. forest_rules (assemble rules (rid r # path) c))
                  (children_by_parent rules (rid r)))"
    by (subst forest_rules_assemble) simp
  with "1.prems"(2) consider "x = r"
    | c where "c \<in> set (children_by_parent rules (rid r))"
        "x \<in> set (forest_rules (assemble rules (rid r # path) c))"
    by auto
  then show ?case
  proof cases
    case 1
    then show ?thesis using "1.prems"(1) by simp
  next
    case (2 c)
    from "1.prems"(1) have "r \<in> set rules" by (auto elim: anchored.cases)
    with 2(1) "1.prems"(1) have "anchored rules c"
      by (auto simp: set_children_by_parent intro: anchored_child)
    with "1.IH" fresh 2 show ?thesis by blast
  qed
qed

lemma organize_anchored:
  "x \<in> set (forest_rules (organize rules)) \<Longrightarrow> anchored rules x"
  by (auto simp: forest_rules_organize set_children_by_parent
        intro: assemble_anchored anchored_root)

lemma organize_rules_subset: "set (forest_rules (organize rules)) \<subseteq> set rules"
  using organize_anchored by (auto elim: anchored.cases)

lemma orphan_not_anchored:
  assumes "is_orphan rules r"
  shows "\<not> anchored rules r"
proof
  assume "anchored rules r"
  then show False
  proof cases
    case anchored_root
    with assms show False by (simp add: is_orphan_def)
  next
    case (anchored_child p)
    then have "pid r \<in> rid ` set rules" by (metis imageI)
    with assms show False by (simp add: is_orphan_def rule_index_None)
  qed
qed

lemma rid_inj:
  "distinct (map rid rules) \<Longrightarrow> a \<in> set rules \<Longrightarrow> b \<in> set rules \<Longrightarrow> rid a = rid b \<Longrightarrow> a = b"
  by (auto simp: distinct_map dest: inj_onD)

lemma anchored_parent:
  assumes "distinct (map rid rules)" and "anchored rules d"
    and "a \<in> set rules" and "pid d \<noteq> 0" and "pid d = rid a"
  shows "anchored rules a"
  using assms(2)
proof cases
  case anchored_root
  with assms(4) show ?thesis by simp
next
  case (anchored_child p)
  with assms(1,3,5) have "p = a" by (auto intro: rid_inj)
  with anchored_child show ?thesis by simp
qed

lemma anchored_descends:
  assumes "distinct (map rid rules)"
  shows "descends rules d a \<Longrightarrow> anchored rules d \<Longrightarrow> anchored rules a"
proof (induction rule: descends.induct)
  case (descends_child d a)
  with assms show ?case by (blast intro: anchored_parent)
next
  case (descends_step d m a)
  with assms have "anchored rules m" by (blast intro: anchored_parent)
  with descends_step show ?case by simp
qed

lemma descends_snoc:
  "descends rules a b \<Longrightarrow> c \<in> set rules \<Longrightarrow> pid b \<noteq> 0 \<Longrightarrow> pid b = rid c
     \<Longrightarrow> descends rules a c"
proof (induction rule: descends.induct)
  case (descends_child d a)
  then show ?case
    by (meson descends.descends_child descends.descends_step)
next
  case (descends_step d m a)
  then show ?case by (meson descends.descends_step)
qed

lemma anchored_acyclic:
  assumes dist: "distinct (map rid rules)"
  shows "anchored rules r \<Longrightarrow> \<not> descends rules r r"
proof (induction rule: anchored.induct)
  case (anchored_root r)
  then show ?case by (auto elim: descends.cases)
next
  case (anchored_child r p)
  show ?case
  proof
    assume cyc: "descends rules r r"
    then have nz: "pid r \<noteq> 0" by cases auto
    from cyc have "descends rules p p"
    proof cases
      case descends_child
      with anchored_child dist have "p = r" by (auto intro: rid_inj)
      with cyc show ?thesis by simp
    next
      case (descends_step m)
      with anchored_child dist have "m = p" by (auto intro: rid_inj)
      with descends_step have "descends rules p r" by simp
      with anchored_child nz show ?thesis by (auto intro: descends_snoc)
    qed
    with anchored_child.IH show False by simp
  qed
qed

lemma fold_max_le: "fold max xs a \<le> (b::nat) \<longleftrightarrow> a \<le> b \<and> (\<forall>x\<in>set xs. x \<le> b)"
  by (induction xs arbitrary: a) auto

lemma assemble_seen: "rid r \<in> set path \<Longrightarrow> assemble rules path r = []"
  by (subst assemble.simps) simp

lemma assemble_fresh:
  "rid r \<notin> set path \<Longrightarrow> assemble rules path r =
     [RuleNode r (concat (map (assemble rules (rid r # path))
        (children_by_parent rules (rid r))))]"
  by (subst assemble.simps) simp

lemma assemble_height:
  "r \<in> set rules \<Longrightarrow> n \<in> set (assemble rules path r)
     \<Longrightarrow> height n \<le> card (rid ` set rules - set path)"
proof (induction rules path r arbitrary: n rule: assemble.induct)
  case (1 rules path r)
  have fresh: "rid r \<notin> set path"
    using "1.prems"(2) by (auto simp: assemble_seen)
  let ?cs = "concat (map (assemble rules (rid r # path)) (children_by_parent rules (rid r)))"
  from fresh "1.prems"(2) have n: "n = RuleNode r ?cs"
    by (simp add: assemble_fresh)
  have less: "card (rid ` set rules - set (rid r # path)) < card (rid ` set rules - set path)"
    using fresh "1.prems"(1) by (intro psubset_card_mono) auto
  have "height m \<le> card (rid ` set rules - set (rid r # path))" if "m \<in> set ?cs" for m
  proof -
    from that obtain c where c: "c \<in> set (children_by_parent rules (rid r))"
      and m: "m \<in> set (assemble rules (rid r # path) c)"
      by auto
    from c have "c \<in> set rules" by (simp add: set_children_by_parent)
    with "1.IH" fresh c m show ?thesis by blast
  qed
  then have "fold max (map height ?cs) 0 \<le> card (rid ` set rules - set (rid r # path))"
    by (simp add: fold_max_le)
  with less n show ?case by simp
qed

lemma organize_height:
  assumes "n \<in> set (organize rules)"
  shows "height n \<le> length rules"
proof -
  from assms obtain c where "c \<in> set (children_by_parent rules 0)"
    and "n \<in> set (assemble rules [] c)"
    by (auto simp: organize_def)
  then have "height n \<le> card (rid ` set rules - set [])"
    by (intro assemble_height) (simp_all add: set_children_by_parent)
  also have "\<dots> \<le> length rules"
    by (simp add: card_image_le [THEN le_trans] card_length)
  finally show ?thesis .
qed


lemma node_rules_assemble:
  "map node_rule (concat (map (assemble rules path) xs)) = filter (\<lambda>c. rid c \<notin> set path) xs"
  by (induction xs) (simp_all add: assemble_seen assemble_fresh)

lemma assemble_children:
  "m \<in> set (assemble rules path r) \<Longrightarrow> n \<in> set (subtrees m)
     \<Longrightarrow> \<exists>q. map node_rule (children n) =
           filter (\<lambda>c. rid c \<notin> set q) (children_by_parent rules (rid (node_rule n)))"
proof (induction rules path r arbitrary: m n rule: assemble.induct)
  case (1 rules path r)
  have fresh: "rid r \<notin> set path"
    using "1.prems"(1) by (auto simp: assemble_seen)
  let ?cs = "concat (map (assemble rules (rid r # path)) (children_by_parent rules (rid r)))"
  from fresh "1.prems"(1) have m: "m = RuleNode r ?cs"
    by (simp add: assemble_fresh)
  with "1.prems"(2) consider "n = RuleNode r ?cs"
    | c m' where "c \<in> set (children_by_parent rules (rid r))"
        "m' \<in> set (assemble rules (rid r # path) c)" "n \<in> set (subtrees m')"
    by auto
  then show ?case
  proof cases
    case 1
    then have "map node_rule (children n) =
        filter (\<lambda>c. rid c \<notin> set (rid r # path))
          (children_by_parent rules (rid (node_rule n)))"
      by (simp only: rule_node.sel node_rules_assemble)
    then show ?thesis by blast
  next
    case (2 c m')
    with "1.IH" fresh show ?thesis by blast
  qed
qed

lemma organize_children:
  assumes "n \<in> set (forest_nodes (organize rules))"
  shows "\<exists>q. map node_rule (children n) =
           filter (\<lambda>c. rid c \<notin> set q) (children_by_parent rules (rid (node_rule n)))"
proof -
  from assms obtain c m where "m \<in> set (assemble rules [] c)" "n \<in> set (subtrees m)"
    by (auto simp: forest_nodes_def organize_def)
  then show ?thesis by (rule assemble_children)
qed

lemma kept_children_sorted:
  "sorted (map weigh (filter keep (children_by_parent rules p)))"
  by (simp add: children_by_parent_def sorted_filter)

lemma kept_children_stable:
  "subseq (filter (\<lambda>c. weigh c = w) (filter keep (children_by_parent rules p))) rules"
proof -
  have "filter (\<lambda>c. weigh c = w) (filter keep (children_by_parent rules p)) =
      filter keep (filter (\<lambda>c. weigh c = w) (sort_key weigh (filter (\<lambda>r. pid r = p) rules)))"
    by (simp add: children_by_parent_def conj_commute)
  also have "\<dots> = filter keep (filter (\<lambda>c. weigh c = w) (filter (\<lambda>r. pid r = p) rules))"
    by (simp only: sort_key_stable)
  finally show ?thesis
    by (simp del: filter_filter) (meson subseq_filter_left subseq_order.order_trans)
qed



subsection \<open>Bounded recursion\<close>

lemma those_map_Some:
  "(\<And>x. x \<in> set xs \<Longrightarrow> f x = Some (g x)) \<Longrightarrow> those (map f xs) = Some (map g xs)"
  by (induction xs) simp_all

lemma assemble_fuel_enough:
  "r \<in> set rules \<Longrightarrow> card (rid ` set rules - set path) < n
     \<Longrightarrow> assemble_fuel n rules path r = Some (assemble rules path r)"
proof (induction n arbitrary: path r)
  case 0
  then show ?case by simp
next
  case (Suc n)
  show ?case
  proof (cases "rid r \<in> set path")
    case True
    then show ?thesis by (simp add: assemble_seen)
  next
    case False
    have less: "card (rid ` set rules - set (rid r # path)) < card (rid ` set rules - set path)"
      using False Suc.prems(1) by (intro psubset_card_mono) auto
    have "assemble_fuel n rules (rid r # path) c = Some (assemble rules (rid r # path) c)"
      if "c \<in> set (children_by_parent rules (rid r))" for c
    proof -
      from that have "c \<in> set rules" by (simp add: set_children_by_parent)
      moreover from less Suc.prems(2) have "card (rid ` set rules - set (rid r # path)) < n"
        by linarith
      ultimately show ?thesis by (rule Suc.IH)
    qed
    then have "those (map (assemble_fuel n rules (rid r # path)) (children_by_parent rules (rid r)))
        = Some (map (assemble rules (rid r # path)) (children_by_parent rules (rid r)))"
      by (rule those_map_Some)
    with False show ?thesis by (simp add: assemble_fresh)
  qed
qed

lemma organize_fuel_enough:
  assumes "length rules < n"
  shows "organize_fuel n rules = Some (organize rules)"
proof -
  have "card (rid ` set rules - set []) \<le> length rules"
    by (simp add: card_image_le [THEN le_trans] card_length)
  with assms have small: "card (rid ` set rules - set []) < n" by linarith
  have "assemble_fuel n rules [] c = Some (assemble rules [] c)"
    if "c \<in> set (children_by_parent rules 0)" for c
    using that small by (intro assemble_fuel_enough) (simp_all add: set_children_by_parent)
  then have "those (map (assemble_fuel n rules []) (children_by_parent rules 0))
      = Some (map (assemble rules []) (children_by_parent rules 0))"
    by (rule those_map_Some)
  then show ?thesis by (simp add: organize_fuel_def organize_def)
qed

subsection \<open>Ancestor chains\<close>


















subsection \<open>Excluded rules\<close>


lemma anchored_up: "descends rules d a \<Longrightarrow> anchored rules a \<Longrightarrow> anchored rules d"
  by (induction rule: descends.induct) (auto intro: anchored_child)





lemma roots_in_forest: "set (map node_rule ns) \<subseteq> set (forest_rules ns)"
proof (induction ns)
  case Nil
  then show ?case by simp
next
  case (Cons n ns)
  then show ?case by (cases n) auto
qed

lemma organize_singleton_orphan: "pid r \<noteq> 0 \<Longrightarrow> organize [r] = []"
  by (simp add: organize_def children_by_parent_def)

lemma organize_two_cycle:
  "pid a \<noteq> 0 \<Longrightarrow> pid b \<noteq> 0 \<Longrightarrow> organize [a, b] = []"
  by (simp add: organize_def children_by_parent_def)


text \<open>
  Where a rule has the id 0, the group of the parent id 0 holds the roots and is the group
  of that rule's children as well: the statements on multisets of ids below are for
  inputs without such a rule.
\<close>

lemma organize_id_zero_example:
  "distinct (map rid [mk_rule 0 0 0, mk_rule 1 0 0]) \<and>
   \<not> excluded [mk_rule 0 0 0, mk_rule 1 0 0] (mk_rule 0 0 0) \<and>
   \<not> excluded [mk_rule 0 0 0, mk_rule 1 0 0] (mk_rule 1 0 0) \<and>
   map rid (forest_rules (organize [mk_rule 0 0 0, mk_rule 1 0 0])) = [0, 1, 1]"
proof -
  have "\<not> descends rules (mk_rule i 0 w) a" for rules i w a
    by (auto elim: descends.cases simp: mk_rule_def)
  then have "\<not> excluded rules (mk_rule i 0 w)" for rules i w
    by (simp add: excluded_def is_orphan_def mk_rule_def)
  moreover have "map rid (forest_rules (organize [mk_rule 0 0 0, mk_rule 1 0 0])) = [0, 1, 1]"
    by (simp add: organize_def children_by_parent_def mk_rule_def assemble.simps
        forest_rules_def)
  ultimately show ?thesis by (simp add: mk_rule_def)
qed

section \<open>Facts about the request log\<close>

lemma redact_password_object:
  "''password'' \<in> fst ` set kvs \<Longrightarrow> kvs \<noteq> [] \<Longrightarrow>
     redact (get_json_or_empty (Some (JObj kvs))) = Inr (JObj (AList.update ''password'' (JStr []) kvs))"
  by (simp add: redact_def get_json_or_empty_def)

lemma log_request_data_returns: "\<exists>w'. log_request_data dumps env w = Inr w'"
  by (simp add: log_request_data_def split: sum.split)

lemma log_request_data_cached:
  "log_request_data dumps env w = Inr w' \<Longrightarrow> cached_json w' = cached_json w"
  by (auto simp: log_request_data_def log_request_body_def Let_def
      split: sum.splits option.splits if_splits)

lemma log_request_data_logs:
  assumes "cached_json w = Some (JObj kvs)" and "''password'' \<in> fst ` set kvs"
  shows "log_request_data dumps env w =
     Inr (case g_user env of
            None \<Rightarrow> w
          | Some u \<Rightarrow>
             if commit_ok env
             then w\<lparr>admin_logs := admin_logs w @
                       [new_admin_log env u
                          (dumps (JObj (AList.update ''password'' (JStr []) kvs)))],
                     stdout := stdout w @
                       [dumps (JObj (AList.update ''password'' (JStr []) kvs))]\<rparr>
             else w\<lparr>error_log := error_log w @ [CommitError]\<rparr>)"
proof -
  from assms(2) have "kvs \<noteq> []" by auto
  with assms show ?thesis
    by (simp add: log_request_data_def log_request_body_def redact_password_object Let_def
        split: option.split)
qed

lemma get_admin_rules_status: "r \<in> set (get_admin_rules db) \<Longrightarrow> status r = ''normal''"
  by (simp add: get_admin_rules_def set_query_all)

lemma get_user_rules_status: "r \<in> set (get_user_rules db) \<Longrightarrow> status r = ''normal''"
  by (simp add: get_user_rules_def set_query_all)

section \<open>The claims\<close>

text \<open>
  Claim C1, as stated, fails for the admin call site: an admin rule of type button with
  status normal satisfies the filter by status alone, and is not handed to the organizer.
\<close>

theorem call_site_filters_counterexample:
  "status ((mk_rule 7 0 0)\<lparr>rtype := ''button''\<rparr>) = ''normal'' \<and>
   (mk_rule 7 0 0)\<lparr>rtype := ''button''\<rparr> \<in> set (get_admin_rules_all
      \<lparr>admin_rule_table = [(mk_rule 7 0 0)\<lparr>rtype := ''button''\<rparr>], user_rule_table = []\<rparr>) \<and>
   admin_organizer_input
      \<lparr>admin_rule_table = [(mk_rule 7 0 0)\<lparr>rtype := ''button''\<rparr>], user_rule_table = []\<rparr> [] = []"
  by (simp add: admin_organizer_input_def get_admin_rules_def get_admin_rules_all_def
      query_all_def mk_rule_def)

text \<open>
  Claim C1, amended: the user call site passes exactly the root-level (pid = 0) user
  rules of type menu with status normal. The admin call site passes exactly the admin
  rules of type menu with status normal, whatever their pid, followed by the plugins'
  admin rules as they are. In the example the non-root rule 2 is part of the admin input.
\<close>

theorem call_site_filters:
  "mset (user_organizer_input db plugin_user_rules) =
     filter_mset (\<lambda>r. pid r = 0 \<and> rtype r = ''menu'' \<and> status r = ''normal'')
       (mset (user_rule_table db)) \<and>
   mset (admin_organizer_input db plugin_admin_rules) =
     filter_mset (\<lambda>r. rtype r = ''menu'' \<and> status r = ''normal'') (mset (admin_rule_table db))
       + mset plugin_admin_rules \<and>
   admin_organizer_input
      \<lparr>admin_rule_table = [mk_rule 2 1 0, mk_rule 1 0 0], user_rule_table = []\<rparr> [] =
     [mk_rule 1 0 0, mk_rule 2 1 0]"
  by (simp add: user_organizer_input_def admin_organizer_input_def get_user_rules_def
      get_admin_rules_def mset_query_all)
    (simp add: query_all_def mk_rule_def)

text \<open>
  Claim C2, as stated, fails for a rule contributed by a plugin: a manifest entry with
  status hidden becomes an admin rule with status hidden in the organizer's input.
\<close>

theorem organizer_input_status_counterexample:
  "status (admin_rule_of_item sample_item) = ''hidden'' \<and>
   admin_rule_of_item sample_item \<in> set (admin_organizer_input
      \<lparr>admin_rule_table = [], user_rule_table = []\<rparr> (scan_plugins_folder [] [sample_item]))"
  by (simp add: admin_organizer_input_def get_admin_rules_def query_all_def
      scan_plugins_folder_def admin_rule_of_item_def sample_item_def)

text \<open>
  Claim C2, amended. The user organizer's input is exactly the root-level user rules of
  type menu with status normal, whatever the plugins contribute, so each of its rules has
  status normal. The admin organizer's input is the list of the queried admin rules, each
  of status normal, followed by all the plugins' admin rules, unfiltered; a plugin rule
  carries the status that its manifest entry declares. For every organizer \<open>org\<close> whose
  trees hold rules of its input only, the user tree holds rules of status normal only,
  and a rule of the admin tree has status normal or is a plugin rule. The organizer of
  the specification is such an organizer.
\<close>

theorem organizer_input_status:
  "mset (user_organizer_input db plugin_user_rules) =
     filter_mset (\<lambda>r. pid r = 0 \<and> rtype r = ''menu'' \<and> status r = ''normal'')
       (mset (user_rule_table db)) \<and>
   (\<forall>r \<in> set (user_organizer_input db plugin_user_rules). status r = ''normal'') \<and>
   admin_organizer_input db plugin_admin_rules = get_admin_rules db @ plugin_admin_rules \<and>
   (\<forall>r \<in> set (get_admin_rules db). status r = ''normal'') \<and>
   map status (scan_plugins_folder plugin_admin_rules admin_menu) =
     map status plugin_admin_rules @ map item_status admin_menu \<and>
   ((\<forall>rules. set (forest_rules (org rules)) \<subseteq> set rules) \<longrightarrow>
      (\<forall>r \<in> set (forest_rules (org (user_organizer_input db plugin_user_rules))).
         status r = ''normal'') \<and>
      (\<forall>r \<in> set (forest_rules (org (admin_organizer_input db plugin_admin_rules))).
         status r = ''normal'' \<or> r \<in> set plugin_admin_rules)) \<and>
   set (forest_rules (organize rules)) \<subseteq> set rules"
proof (intro conjI impI ballI)
  show "mset (user_organizer_input db plugin_user_rules) =
     filter_mset (\<lambda>r. pid r = 0 \<and> rtype r = ''menu'' \<and> status r = ''normal'')
       (mset (user_rule_table db))"
    by (simp add: user_organizer_input_def get_user_rules_def mset_query_all)
next
  fix r assume "r \<in> set (user_organizer_input db plugin_user_rules)"
  then show "status r = ''normal''"
    by (simp add: user_organizer_input_def get_user_rules_status)
next
  show "admin_organizer_input db plugin_admin_rules = get_admin_rules db @ plugin_admin_rules"
    by (simp add: admin_organizer_input_def)
next
  fix r assume "r \<in> set (get_admin_rules db)"
  then show "status r = ''normal''" by (rule get_admin_rules_status)
next
  show "map status (scan_plugins_folder plugin_admin_rules admin_menu) =
     map status plugin_admin_rules @ map item_status admin_menu"
    by (simp add: scan_plugins_folder_def admin_rule_of_item_def comp_def)
next
  fix r
  assume sub: "\<forall>rules. set (forest_rules (org rules)) \<subseteq> set rules"
    and "r \<in> set (forest_rules (org (user_organizer_input db plugin_user_rules)))"
  then have "r \<in> set (user_organizer_input db plugin_user_rules)" by blast
  then show "status r = ''normal''"
    by (simp add: user_organizer_input_def get_user_rules_status)
next
  fix r
  assume sub: "\<forall>rules. set (forest_rules (org rules)) \<subseteq> set rules"
    and "r \<in> set (forest_rules (org (admin_organizer_input db plugin_admin_rules)))"
  then have "r \<in> set (admin_organizer_input db plugin_admin_rules)" by blast
  then show "status r = ''normal'' \<or> r \<in> set plugin_admin_rules"
    by (auto simp: admin_organizer_input_def get_admin_rules_status)
next
  show "set (forest_rules (organize rules)) \<subseteq> set rules"
    by (rule organize_rules_subset)
qed

text \<open>
  Claim C2, an instance: one admin rule and one user rule in the database, and a plugin
  rule of status hidden, which is in the admin organizer's input and in its tree.
\<close>

theorem organizer_input_status_witness:
  "(\<forall>rules. set (forest_rules (organize rules)) \<subseteq> set rules) \<and>
   admin_organizer_input \<lparr>admin_rule_table = [mk_rule 3 0 0], user_rule_table = [mk_rule 1 0 0]\<rparr>
      [admin_rule_of_item sample_item] = [mk_rule 3 0 0, admin_rule_of_item sample_item] \<and>
   user_organizer_input \<lparr>admin_rule_table = [mk_rule 3 0 0], user_rule_table = [mk_rule 1 0 0]\<rparr>
      [admin_rule_of_item sample_item] = [mk_rule 1 0 0] \<and>
   forest_rules (organize [mk_rule 3 0 0, admin_rule_of_item sample_item]) =
      [mk_rule 3 0 0, admin_rule_of_item sample_item] \<and>
   status (mk_rule 3 0 0) = ''normal'' \<and>
   status (admin_rule_of_item sample_item) = ''hidden'' \<and>
   admin_rule_of_item sample_item \<in> set [admin_rule_of_item sample_item] \<and>
   forest_rules (organize [mk_rule 1 0 0]) = [mk_rule 1 0 0] \<and>
   status (mk_rule 1 0 0) = ''normal''"
proof -
  let ?db = "\<lparr>admin_rule_table = [mk_rule 3 0 0], user_rule_table = [mk_rule 1 0 0]\<rparr>"
  let ?hid = "admin_rule_of_item sample_item"
  have sub: "\<forall>rules. set (forest_rules (organize rules)) \<subseteq> set rules"
    using organizer_input_status by blast
  have admin: "admin_organizer_input ?db [?hid] = [mk_rule 3 0 0, ?hid]"
    by (simp add: admin_organizer_input_def get_admin_rules_def query_all_def mk_rule_def)
  have user: "user_organizer_input ?db [?hid] = [mk_rule 1 0 0]"
    by (simp add: user_organizer_input_def get_user_rules_def query_all_def mk_rule_def)
  have tree: "forest_rules (organize [mk_rule 3 0 0, ?hid]) = [mk_rule 3 0 0, ?hid]"
    by (simp add: organize_def children_by_parent_def mk_rule_def assemble.simps
        forest_rules_def admin_rule_of_item_def sample_item_def)
  have utree: "forest_rules (organize [mk_rule 1 0 0]) = [mk_rule 1 0 0]"
    by (simp add: organize_def children_by_parent_def mk_rule_def assemble.simps
        forest_rules_def)
  from sub organizer_input_status [of ?db "[?hid]" "[?hid]" "[]" organize]
  have "(\<forall>r \<in> set (forest_rules (organize (user_organizer_input ?db [?hid]))).
         status r = ''normal'') \<and>
      (\<forall>r \<in> set (forest_rules (organize (admin_organizer_input ?db [?hid]))).
         status r = ''normal'' \<or> r \<in> set [?hid])"
    by blast
  with admin user tree utree
  have inst: "status (mk_rule 1 0 0) = ''normal'' \<and>
      (status ?hid = ''normal'' \<or> ?hid \<in> set [?hid])"
    by simp
  have normal: "status (mk_rule 3 0 0) = ''normal''" "status (mk_rule 1 0 0) = ''normal''"
    by (simp_all add: mk_rule_def)
  have hidden: "status ?hid = ''hidden''"
    by (simp add: admin_rule_of_item_def sample_item_def)
  have mem: "?hid \<in> set [?hid]" by simp
  from sub admin user tree utree normal hidden mem inst show ?thesis by blast
qed

text \<open>
  Claim C3: an orphan is the rule of no node of the result, at any depth, and so of no
  root. When the ids of the input are pairwise distinct, no rule whose chain of parent
  references passes through the orphan is in the result either. The input that holds
  one rule with id 1, pid 5 and weigh 0 gives the empty sequence. \<open>organize\<close> is a
  total function with a list as its value: there is no error to raise.
\<close>

theorem organize_drops_orphans:
  "(is_orphan rules r \<longrightarrow>
      r \<notin> set (forest_rules (organize rules)) \<and> r \<notin> set (map node_rule (organize rules))) \<and>
   (distinct (map rid rules) \<longrightarrow> is_orphan rules r \<longrightarrow> descends rules d r \<longrightarrow>
      d \<notin> set (forest_rules (organize rules))) \<and>
   organize [r0\<lparr>rid := 1, pid := 5, weigh := 0\<rparr>] = []"
proof (intro conjI impI)
  assume "is_orphan rules r"
  then show "r \<notin> set (forest_rules (organize rules))"
    using organize_anchored orphan_not_anchored by blast
  then show "r \<notin> set (map node_rule (organize rules))"
    using roots_in_forest by blast
next
  assume "distinct (map rid rules)" "is_orphan rules r" "descends rules d r"
  then have "\<not> anchored rules d"
    using anchored_descends orphan_not_anchored by blast
  then show "d \<notin> set (forest_rules (organize rules))"
    using organize_anchored by blast
next
  show "organize [r0\<lparr>rid := 1, pid := 5, weigh := 0\<rparr>] = []"
    by (simp add: organize_singleton_orphan)
qed

text \<open>Claim C3, an instance: rule 1 is an orphan, rule 2 its child, rule 3 a root.\<close>

theorem organize_drops_orphans_witness:
  "is_orphan [mk_rule 1 5 0, mk_rule 2 1 0, mk_rule 3 0 0] (mk_rule 1 5 0) \<and>
   distinct (map rid [mk_rule 1 5 0, mk_rule 2 1 0, mk_rule 3 0 0]) \<and>
   descends [mk_rule 1 5 0, mk_rule 2 1 0, mk_rule 3 0 0] (mk_rule 2 1 0) (mk_rule 1 5 0) \<and>
   mk_rule 1 5 0 \<notin> set (forest_rules (organize [mk_rule 1 5 0, mk_rule 2 1 0, mk_rule 3 0 0])) \<and>
   mk_rule 2 1 0 \<notin> set (forest_rules (organize [mk_rule 1 5 0, mk_rule 2 1 0, mk_rule 3 0 0]))"
proof -
  let ?rules = "[mk_rule 1 5 0, mk_rule 2 1 0, mk_rule 3 0 0]"
  have orphan: "is_orphan ?rules (mk_rule 1 5 0)"
    by (simp add: is_orphan_def rule_index_def mk_rule_def)
  have ids: "distinct (map rid ?rules)"
    by (simp add: mk_rule_def)
  have below: "descends ?rules (mk_rule 2 1 0) (mk_rule 1 5 0)"
    by (rule descends_child) (simp_all add: mk_rule_def)
  from orphan ids below
    organize_drops_orphans [of ?rules "mk_rule 1 5 0" "mk_rule 2 1 0"]
  show ?thesis by blast
qed

text \<open>
  Claim C4: the recursion written with a bound on its depth returns within one more
  nested call than the input has rules, and then gives the value of \<open>organize\<close>; no tree
  of the result is higher than the input is long; the 2-cycle gives the empty sequence;
  and, when the ids of the input are pairwise distinct, a rule on a cycle, or whose chain
  of parent references passes through a rule on a cycle, is in no tree of the result.
\<close>

theorem organize_terminates:
  "organize_fuel (Suc (length rules)) rules = Some (organize rules) \<and>
   (\<forall>n \<in> set (organize rules). height n \<le> length rules) \<and>
   organize [a\<lparr>rid := 1, pid := 2\<rparr>, b\<lparr>rid := 2, pid := 1\<rparr>] = [] \<and>
   (distinct (map rid rules) \<longrightarrow>
      descends rules r r \<or> (\<exists>c \<in> set rules. descends rules r c \<and> descends rules c c) \<longrightarrow>
      r \<notin> set (forest_rules (organize rules)))"
proof (intro conjI impI ballI)
  show "organize_fuel (Suc (length rules)) rules = Some (organize rules)"
    by (simp add: organize_fuel_enough)
next
  fix n assume "n \<in> set (organize rules)"
  then show "height n \<le> length rules" by (rule organize_height)
next
  show "organize [a\<lparr>rid := 1, pid := 2\<rparr>, b\<lparr>rid := 2, pid := 1\<rparr>] = []"
    by (simp add: organize_two_cycle)
next
  assume ids: "distinct (map rid rules)"
    and "descends rules r r \<or> (\<exists>c \<in> set rules. descends rules r c \<and> descends rules c c)"
  then have "\<not> anchored rules r"
    using anchored_acyclic anchored_descends by blast
  then show "r \<notin> set (forest_rules (organize rules))"
    using organize_anchored by blast
qed

text \<open>
  Claim C4, an instance: rules 1 and 2 form a cycle, rule 3 hangs below it, rule 4 is a
  root.
\<close>

theorem organize_terminates_witness:
  "distinct (map rid [mk_rule 1 2 0, mk_rule 2 1 0, mk_rule 3 2 0, mk_rule 4 0 0]) \<and>
   descends [mk_rule 1 2 0, mk_rule 2 1 0, mk_rule 3 2 0, mk_rule 4 0 0]
     (mk_rule 2 1 0) (mk_rule 2 1 0) \<and>
   descends [mk_rule 1 2 0, mk_rule 2 1 0, mk_rule 3 2 0, mk_rule 4 0 0]
     (mk_rule 3 2 0) (mk_rule 2 1 0) \<and>
   mk_rule 2 1 0 \<notin> set (forest_rules
     (organize [mk_rule 1 2 0, mk_rule 2 1 0, mk_rule 3 2 0, mk_rule 4 0 0])) \<and>
   mk_rule 3 2 0 \<notin> set (forest_rules
     (organize [mk_rule 1 2 0, mk_rule 2 1 0, mk_rule 3 2 0, mk_rule 4 0 0])) \<and>
   RuleNode (mk_rule 4 0 0) []
     \<in> set (organize [mk_rule 1 2 0, mk_rule 2 1 0, mk_rule 3 2 0, mk_rule 4 0 0]) \<and>
   height (RuleNode (mk_rule 4 0 0) []) \<le> 4"
proof -
  let ?rules = "[mk_rule 1 2 0, mk_rule 2 1 0, mk_rule 3 2 0, mk_rule 4 0 0]"
  have ids: "distinct (map rid ?rules)"
    by (simp add: mk_rule_def)
  have up: "descends ?rules (mk_rule 1 2 0) (mk_rule 2 1 0)"
    by (rule descends_child) (simp_all add: mk_rule_def)
  have cyc: "descends ?rules (mk_rule 2 1 0) (mk_rule 2 1 0)"
    by (rule descends_step [OF _ _ _ _ up]) (simp_all add: mk_rule_def)
  have below: "descends ?rules (mk_rule 3 2 0) (mk_rule 2 1 0)"
    by (rule descends_child) (simp_all add: mk_rule_def)
  have mem: "mk_rule 2 1 0 \<in> set ?rules" by simp
  have root: "RuleNode (mk_rule 4 0 0) [] \<in> set (organize ?rules)"
    by (simp add: organize_def children_by_parent_def mk_rule_def assemble.simps)
  from ids cyc below mem root
    organize_terminates [of ?rules _ _ "mk_rule 2 1 0"]
    organize_terminates [of ?rules _ _ "mk_rule 3 2 0"]
  show ?thesis by (simp (no_asm_use)) blast
qed

text \<open>
  Claim C5: at every node of the result the children are sorted by ascending weigh, the
  children of equal weigh stand in the order of the input, and every child is a rule of
  the input whose pid is the id of the node. The input of three rules gives one root,
  rule 1, with the children 3 and 2 in this order.
\<close>

theorem organize_children_sorted_stable:
  "(\<forall>n \<in> set (forest_nodes (organize rules)).
      sorted (map weigh (map node_rule (children n))) \<and>
      (\<forall>w. subseq (filter (\<lambda>c. weigh c = w) (map node_rule (children n))) rules) \<and>
      (\<forall>c \<in> set (map node_rule (children n)). c \<in> set rules \<and> pid c = rid (node_rule n))) \<and>
   organize [mk_rule 1 0 1, mk_rule 2 1 2, mk_rule 3 1 1] =
     [RuleNode (mk_rule 1 0 1) [RuleNode (mk_rule 3 1 1) [], RuleNode (mk_rule 2 1 2) []]]"
proof (intro conjI ballI)
  fix n
  assume "n \<in> set (forest_nodes (organize rules))"
  then obtain q where kept: "map node_rule (children n) =
      filter (\<lambda>c. rid c \<notin> set q) (children_by_parent rules (rid (node_rule n)))"
    using organize_children by blast
  show "sorted (map weigh (map node_rule (children n)))"
    by (simp only: kept kept_children_sorted)
  show "\<forall>w. subseq (filter (\<lambda>c. weigh c = w) (map node_rule (children n))) rules"
    by (simp only: kept kept_children_stable) simp
  fix c
  assume "c \<in> set (map node_rule (children n))"
  then show "c \<in> set rules" and "pid c = rid (node_rule n)"
    by (simp_all only: kept) (simp_all add: set_children_by_parent)
next
  show "organize [mk_rule 1 0 1, mk_rule 2 1 2, mk_rule 3 1 1] =
     [RuleNode (mk_rule 1 0 1) [RuleNode (mk_rule 3 1 1) [], RuleNode (mk_rule 2 1 2) []]]"
    by (simp add: organize_def children_by_parent_def mk_rule_def assemble.simps)
qed

text \<open>Claim C5, an instance: two children of equal weigh keep their input order.\<close>

theorem organize_children_sorted_stable_witness:
  "RuleNode (mk_rule 1 0 1) [RuleNode (mk_rule 3 1 1) [], RuleNode (mk_rule 2 1 1) []]
     \<in> set (forest_nodes (organize [mk_rule 1 0 1, mk_rule 3 1 1, mk_rule 2 1 1])) \<and>
   sorted (map weigh [mk_rule 3 1 1, mk_rule 2 1 1]) \<and>
   subseq (filter (\<lambda>c. weigh c = 1) [mk_rule 3 1 1, mk_rule 2 1 1])
     [mk_rule 1 0 1, mk_rule 3 1 1, mk_rule 2 1 1]"
proof -
  let ?rules = "[mk_rule 1 0 1, mk_rule 3 1 1, mk_rule 2 1 1]"
  let ?n = "RuleNode (mk_rule 1 0 1) [RuleNode (mk_rule 3 1 1) [], RuleNode (mk_rule 2 1 1) []]"
  have out: "organize ?rules = [?n]"
    by (simp add: organize_def children_by_parent_def mk_rule_def assemble.simps)
  then have mem: "?n \<in> set (forest_nodes (organize ?rules))"
    by (simp add: forest_nodes_def)
  from organize_children_sorted_stable [of ?rules] mem
  have "sorted (map weigh (map node_rule (children ?n))) \<and>
      (\<forall>w. subseq (filter (\<lambda>c. weigh c = w) (map node_rule (children ?n))) ?rules)"
    by blast
  then have "sorted (map weigh [mk_rule 3 1 1, mk_rule 2 1 1]) \<and>
      subseq (filter (\<lambda>c. weigh c = 1) [mk_rule 3 1 1, mk_rule 2 1 1]) ?rules"
    by (simp del: sorted_wrt.simps filter.simps subseq_Cons2_iff)
  with mem show ?thesis by blast
qed



text \<open>
  Claim C9: the three user-rule queries return equal lists on every database; the list
  holds exactly the root-level user rules of type menu with status normal, ordered by
  ascending id. \<^verbatim>\<open>get_user_rules_all\<close> is therefore not the list of all user rules: in the
  example the non-root rule 2 is left out.
\<close>

theorem user_rule_queries_agree:
  "get_user_rules db = get_user_rules_query db \<and>
   get_user_rules_query db = get_user_rules_all db \<and>
   mset (get_user_rules_all db) =
     filter_mset (\<lambda>r. pid r = 0 \<and> rtype r = ''menu'' \<and> status r = ''normal'')
       (mset (user_rule_table db)) \<and>
   sorted (map rid (get_user_rules_all db)) \<and>
   get_user_rules_all
      \<lparr>admin_rule_table = [], user_rule_table = [mk_rule 2 1 0, mk_rule 1 0 0]\<rparr> =
     [mk_rule 1 0 0]"
  by (simp add: get_user_rules_def get_user_rules_query_def get_user_rules_all_def
      mset_query_all sorted_query_all)
    (simp add: query_all_def mk_rule_def)

text \<open>
  Claim C10: \<^verbatim>\<open>before_request\<close> with \<^verbatim>\<open>log_request_data\<close> always returns, and leaves the
  cached JSON of the request as it was. For a POST request whose JSON body is an object
  with the key password: the object that is serialized has the empty string under that
  key; the state after the call is the one spelled out, with one new row of that content
  when \<^verbatim>\<open>g.user\<close> is set and the commit succeeds; and a request that differs in the
  value of the password alone leaves the same rows, the same output and the same errors.
\<close>

theorem log_request_data_redacts_password:
  "(\<exists>w'. before_request dumps env w = Inr w' \<and> cached_json w' = cached_json w) \<and>
   (req_method (env_request env) = ''POST'' \<longrightarrow> cached_json w = Some (JObj kvs) \<longrightarrow>
    ''password'' \<in> fst ` set kvs \<longrightarrow>
      map_of (AList.update ''password'' (JStr []) kvs) ''password'' = Some (JStr []) \<and>
      before_request dumps env w =
        Inr (case g_user env of
               None \<Rightarrow> w
             | Some u \<Rightarrow>
                if commit_ok env
                then w\<lparr>admin_logs := admin_logs w @
                          [new_admin_log env u
                             (dumps (JObj (AList.update ''password'' (JStr []) kvs)))],
                        stdout := stdout w @
                          [dumps (JObj (AList.update ''password'' (JStr []) kvs))]\<rparr>
                else w\<lparr>error_log := error_log w @ [CommitError]\<rparr>) \<and>
      (\<forall>v. \<exists>w1 w2.
         before_request dumps env w = Inr w1 \<and>
         before_request dumps env
           (w\<lparr>cached_json := Some (JObj (AList.update ''password'' v kvs))\<rparr>) = Inr w2 \<and>
         admin_logs w2 = admin_logs w1 \<and> stdout w2 = stdout w1 \<and> error_log w2 = error_log w1))"
proof (intro conjI impI allI)
  obtain w' where w': "log_request_data dumps env w = Inr w'"
    using log_request_data_returns by blast
  then have "cached_json w' = cached_json w" by (rule log_request_data_cached)
  with w' show "\<exists>w'. before_request dumps env w = Inr w' \<and> cached_json w' = cached_json w"
    by (simp add: before_request_def)
next
  show "map_of (AList.update ''password'' (JStr []) kvs) ''password'' = Some (JStr [])"
    by (simp add: update_conv')
next
  assume post: "req_method (env_request env) = ''POST''"
    and body: "cached_json w = Some (JObj kvs)" and key: "''password'' \<in> fst ` set kvs"
  from body key show "before_request dumps env w =
        Inr (case g_user env of
               None \<Rightarrow> w
             | Some u \<Rightarrow>
                if commit_ok env
                then w\<lparr>admin_logs := admin_logs w @
                          [new_admin_log env u
                             (dumps (JObj (AList.update ''password'' (JStr []) kvs)))],
                        stdout := stdout w @
                          [dumps (JObj (AList.update ''password'' (JStr []) kvs))]\<rparr>
                else w\<lparr>error_log := error_log w @ [CommitError]\<rparr>)"
    using post by (simp add: before_request_def log_request_data_logs)
  fix v
  let ?w2 = "w\<lparr>cached_json := Some (JObj (AList.update ''password'' v kvs))\<rparr>"
  have body2: "cached_json ?w2 = Some (JObj (AList.update ''password'' v kvs))" by simp
  have key2: "''password'' \<in> fst ` set (AList.update ''password'' v kvs)"
    by (simp add: dom_update)
  show "\<exists>w1 w2. before_request dumps env w = Inr w1 \<and> before_request dumps env ?w2 = Inr w2 \<and>
      admin_logs w2 = admin_logs w1 \<and> stdout w2 = stdout w1 \<and> error_log w2 = error_log w1"
    using post
    by (simp add: before_request_def log_request_data_logs [OF body key]
        log_request_data_logs [OF body2 key2] split: option.split)
qed

text \<open>
  Claim C10, an instance: a login request with the password secret; the row written holds
  the serialization of the body with the password blanked.
\<close>

theorem log_request_data_redacts_password_witness:
  "req_method (env_request sample_env) = ''POST'' \<and>
   cached_json (sample_world (JObj [(''name'', JStr ''bob''), (''password'', JStr ''secret'')])) =
     Some (JObj [(''name'', JStr ''bob''), (''password'', JStr ''secret'')]) \<and>
   ''password'' \<in> fst ` set [(''name'', JStr ''bob''), (''password'', JStr ''secret'')] \<and>
   map al_content (admin_logs (projr (before_request sample_dumps sample_env
      (sample_world (JObj [(''name'', JStr ''bob''), (''password'', JStr ''secret'')]))))) =
     [''name=bob;password=;'']"
proof -
  let ?kvs = "[(''name'', JStr ''bob''), (''password'', JStr ''secret'')]"
  have post: "req_method (env_request sample_env) = ''POST''"
    by (simp add: sample_env_def sample_request_def)
  have body: "cached_json (sample_world (JObj ?kvs)) = Some (JObj ?kvs)"
    by (simp add: sample_world_def)
  have key: "''password'' \<in> fst ` set ?kvs" by simp
  from post body key
    log_request_data_redacts_password [of sample_dumps sample_env "sample_world (JObj ?kvs)" ?kvs]
  have "before_request sample_dumps sample_env (sample_world (JObj ?kvs)) =
      Inr ((sample_world (JObj ?kvs))\<lparr>admin_logs := admin_logs (sample_world (JObj ?kvs)) @
             [new_admin_log sample_env \<lparr>user_id = 1, user_name = ''alice''\<rparr>
                (sample_dumps (JObj (AList.update ''password'' (JStr []) ?kvs)))],
           stdout := stdout (sample_world (JObj ?kvs)) @
             [sample_dumps (JObj (AList.update ''password'' (JStr []) ?kvs))]\<rparr>)"
    by (simp add: sample_env_def)
  then have "map al_content (admin_logs (projr (before_request sample_dumps sample_env
      (sample_world (JObj ?kvs))))) = [''name=bob;password=;'']"
    by (simp add: sample_world_def new_admin_log_def sample_dumps_def)
  with post body key show ?thesis by blast
qed

end
